theory Spec2Isabelle
  imports
    Complex_Main
    "HOL-Library.Sublist"
    "HOL-Library.Char_ord"
    "HOL-Library.List_Lexorder"
begin

section \<open>Python strings\<close>

text \<open>
  A Python \<^verbatim>\<open>str\<close> is modelled as a HOL \<^typ>\<open>string\<close>: a list of characters, each
  standing for the Unicode code point of the same number (0 to 255). On that range the
  character classes below are the ones CPython uses for \<^verbatim>\<open>str.strip()\<close>, \<^verbatim>\<open>\s\<close> and
  \<^verbatim>\<open>\w\<close>.
\<close>

definition newline :: char where
  "newline = CHR 0x0A"

text \<open>\<^verbatim>\<open>str.isspace\<close> on one character: TAB, LF, VT, FF, CR, FS, GS, RS, US, space, NEL, NBSP.\<close>

definition isspace :: "char \<Rightarrow> bool" where
  "isspace c =
     (let n = (of_char c :: nat)
      in (9 \<le> n \<and> n \<le> 13) \<or> (28 \<le> n \<and> n \<le> 32) \<or> n = 133 \<or> n = 160)"

text \<open>\<^verbatim>\<open>s.strip()\<close>: leading and trailing whitespace removed.\<close>

definition lstrip :: "string \<Rightarrow> string" where
  "lstrip s = dropWhile isspace s"

definition rstrip :: "string \<Rightarrow> string" where
  "rstrip s = rev (dropWhile isspace (rev s))"

definition strip :: "string \<Rightarrow> string" where
  "strip s = rstrip (lstrip s)"

text \<open>\<^verbatim>\<open>s.split('\n')\<close>: always at least one piece.\<close>

fun split_nl :: "string \<Rightarrow> string list" where
  "split_nl [] = [[]]"
| "split_nl (c # cs) =
     (if c = newline then [] # split_nl cs
      else (case split_nl cs of
              [] \<Rightarrow> [[c]]
            | l # ls \<Rightarrow> (c # l) # ls))"

text \<open>\<^verbatim>\<open>'\n'.join(xs)\<close>.\<close>

fun join_nl :: "string list \<Rightarrow> string" where
  "join_nl [] = []"
| "join_nl [x] = x"
| "join_nl (x # y # ys) = x @ newline # join_nl (y # ys)"

text \<open>The text after the first line break: what \<^verbatim>\<open>'\n'.join(s.split('\n')[1:])\<close> returns.\<close>

definition after_first_line :: "string \<Rightarrow> string" where
  "after_first_line s = drop (Suc (length (takeWhile (\<lambda>c. c \<noteq> newline) s))) s"

text \<open>\<^verbatim>\<open>s.startswith(p)\<close> is \<^term>\<open>prefix p s\<close>.\<close>

definition startswith :: "string \<Rightarrow> string \<Rightarrow> bool" where
  "startswith s p = prefix p s"

text \<open>\<^verbatim>\<open>str(n)\<close> for an integer: decimal digits, with a minus sign when negative.\<close>

definition digit_char :: "nat \<Rightarrow> char" where
  "digit_char d = ''0123456789'' ! d"

function str_nat :: "nat \<Rightarrow> string" where
  "str_nat n = (if n < 10 then [digit_char n] else str_nat (n div 10) @ [digit_char (n mod 10)])"
  by pat_completeness auto
termination
  by (relation "measure (\<lambda>n. n)") auto

declare str_nat.simps [simp del]

definition str_int :: "int \<Rightarrow> string" where
  "str_int i = (if i < 0 then CHR ''-'' # str_nat (nat (- i)) else str_nat (nat i))"

section \<open>Data model\<close>

text \<open>
  \<^verbatim>\<open>ExecutionResult\<close> (a dataclass). The field \<^verbatim>\<open>timeout\<close> is named \<open>timeout_flag\<close>
  here, because the executor has a field of the same name.
\<close>

record ExecutionResult =
  returncode :: int
  stdout :: string
  stderr :: string
  execution_time :: real
  timeout_flag :: bool

text \<open>
  The attributes of a \<^verbatim>\<open>BashExecutor\<close>. \<open>timeout_cfg\<close> is \<^verbatim>\<open>self.timeout\<close>;
  \<open>current_process\<close> holds the process id of the \<^verbatim>\<open>Popen\<close> object, or \<open>None\<close>.
\<close>

record BashExecutor =
  timeout_cfg :: int
  working_dir :: string
  current_process :: "nat option"

text \<open>\<^verbatim>\<open>__init__(self, timeout=30, working_dir=None)\<close>; \<open>cwd\<close> is \<^verbatim>\<open>Path.cwd()\<close>.\<close>

definition init :: "int option \<Rightarrow> string option \<Rightarrow> string \<Rightarrow> BashExecutor" where
  "init tmo wd cwd =
     \<lparr> timeout_cfg = (case tmo of None \<Rightarrow> 30 | Some t \<Rightarrow> t),
       working_dir = (case wd of None \<Rightarrow> cwd | Some d \<Rightarrow> d),
       current_process = None \<rparr>"

text \<open>
  Exceptions. \<open>OSError\<close> stands for \<^verbatim>\<open>OSError\<close> and its subclasses
  (\<^verbatim>\<open>ProcessLookupError\<close>, \<^verbatim>\<open>FileNotFoundError\<close>, \<^verbatim>\<open>PermissionError\<close>);
  \<open>OtherException\<close> for any other subclass of \<^verbatim>\<open>Exception\<close>. The string is \<^verbatim>\<open>str(e)\<close>.
\<close>

datatype py_exception = ValueError string | OSError string | OtherException string

fun exn_str :: "py_exception \<Rightarrow> string" where
  "exn_str (ValueError m) = m"
| "exn_str (OSError m) = m"
| "exn_str (OtherException m) = m"

text \<open>
  What leaves a call: a returned value, a raised exception of the \<^verbatim>\<open>Exception\<close> hierarchy,
  or a raised \<^verbatim>\<open>KeyboardInterrupt\<close>, which is a \<^verbatim>\<open>BaseException\<close> and not an
  \<^verbatim>\<open>Exception\<close>: an \<^verbatim>\<open>except Exception\<close> clause does not catch it.
\<close>

datatype 'a outcome = Returned 'a | Raised py_exception | RaisedKeyboardInterrupt

section \<open>The operating system\<close>

datatype signal = SIGINT | SIGTERM | SIGKILL

text \<open>The calls the executor makes, in the order it makes them.\<close>

datatype os_event =
    TempFile string                \<comment> \<open>\<^verbatim>\<open>NamedTemporaryFile(...)\<close> and \<^verbatim>\<open>write\<close> of this text\<close>
  | Chmod string                   \<comment> \<open>\<^verbatim>\<open>os.chmod(path, 0o755)\<close>\<close>
  | Popen string string            \<comment> \<open>\<^verbatim>\<open>Popen(['/bin/bash', path], cwd=..., preexec_fn=os.setsid)\<close>\<close>
  | Communicate nat int            \<comment> \<open>\<^verbatim>\<open>communicate(timeout=...)\<close> on the process\<close>
  | Getpgid nat                    \<comment> \<open>\<^verbatim>\<open>os.getpgid(pid)\<close>\<close>
  | Killpg nat signal              \<comment> \<open>\<^verbatim>\<open>os.killpg(pgid, sig)\<close>\<close>
  | Wait nat "int option"          \<comment> \<open>\<^verbatim>\<open>wait(timeout=...)\<close> on the process\<close>
  | Unlink string                  \<comment> \<open>\<^verbatim>\<open>os.unlink(path)\<close>\<close>
  | SyntaxRun string int           \<comment> \<open>\<^verbatim>\<open>subprocess.run(['/bin/bash', '-n', path], timeout=...)\<close>\<close>

text \<open>
  How \<^verbatim>\<open>communicate(timeout=...)\<close> ends: the script finished, the timeout expired, an
  exception of the \<^verbatim>\<open>Exception\<close> hierarchy was raised, or a \<^verbatim>\<open>KeyboardInterrupt\<close> arrived
  while it waited for the script (the command loop of \<^verbatim>\<open>cli.py\<close> catches that one).
\<close>

datatype comm_outcome =
    Finished int string string     \<comment> \<open>return code, stdout, stderr\<close>
  | TimeoutExpired
  | CommError py_exception
  | Interrupted

text \<open>How \<^verbatim>\<open>subprocess.run(..., timeout=10)\<close> ends.\<close>

datatype run_outcome =
    Completed int string string    \<comment> \<open>return code, stdout, stderr\<close>
  | RunTimeoutExpired
  | RunError py_exception

datatype wait_outcome = Exited | WaitTimeoutExpired | WaitError string

text \<open>
  What the operating system answers at each call site of one call. A call returns or
  raises; \<open>Inl\<close> and \<open>Some\<close> carry the message of the \<^verbatim>\<open>OSError\<close> raised.
  The two readings of \<^verbatim>\<open>time.time()\<close> are real numbers.
\<close>

record world =
  tempfile_r :: "py_exception + string"   \<comment> \<open>the \<^verbatim>\<open>with NamedTemporaryFile\<close> block: the file's name\<close>
  chmod_r :: "string option"
  popen_r :: "py_exception + nat"
  communicate_r :: comm_outcome
  getpgid_term_r :: "string + nat"
  killpg_term_r :: "string option"
  wait_grace_r :: wait_outcome
  getpgid_kill_r :: "string + nat"
  killpg_kill_r :: "string option"
  wait_final_r :: "string option"
  unlink_r :: "string option"
  getpgid_int_r :: "string + nat"
  killpg_int_r :: "string option"
  syntax_run_r :: run_outcome
  time_start :: real
  time_end :: real

section \<open>Script wrapper\<close>

definition safety_header :: "string list" where
  "safety_header =
     [ ''#!/bin/bash'',
       '''',
       ''# Script execution safety measures'',
       ''set -euo pipefail  # Exit on error, undefined vars, pipe failures'',
       '''',
       ''# Function to handle cleanup on exit'',
       ''cleanup() {'',
       ''    echo \"Script execution finished\"'',
       ''}'',
       ''trap cleanup EXIT'',
       '''',
       ''# Script content begins here'' ]"

text \<open>
  \<^verbatim>\<open>_prepare_script\<close>. The list \<^verbatim>\<open>lines\<close> that the source builds first (and extends with a
  directive when \<^verbatim>\<open>lines[0]\<close> does not start with \<^verbatim>\<open>#!\<close>) is never read again, so it
  does not appear.
\<close>

definition prepare_script :: "string \<Rightarrow> string" where
  "prepare_script content =
     (let script_content = strip content;
          script_content =
            (if startswith script_content ''#!/''
             then join_nl (tl (split_nl script_content))
             else script_content)
      in join_nl (safety_header @ ['''', script_content]))"

text \<open>
  The \<^verbatim>\<open>prepare_body_without_directive\<close> of the specification, which the source does not
  have: what \<^verbatim>\<open>_prepare_script\<close> returns, without its first line (the interpreter
  directive).
\<close>

definition prepare_body_without_directive :: "string \<Rightarrow> string" where
  "prepare_body_without_directive content = after_first_line (prepare_script content)"

section \<open>Process runner\<close>

definition error_result :: "py_exception \<Rightarrow> world \<Rightarrow> ExecutionResult" where
  "error_result e w =
     \<lparr> returncode = - 1, stdout = '''',
       stderr = ''Execution error: '' @ exn_str e,
       execution_time = time_end w - time_start w,
       timeout_flag = False \<rparr>"

definition timeout_result :: "int \<Rightarrow> world \<Rightarrow> ExecutionResult" where
  "timeout_result tmo w =
     \<lparr> returncode = - 1, stdout = '''',
       stderr = ''Script execution timed out after '' @ str_int tmo @ '' seconds'',
       execution_time = time_end w - time_start w,
       timeout_flag = True \<rparr>"

text \<open>
  The handler of \<^verbatim>\<open>subprocess.TimeoutExpired\<close>: the calls made until the first one raises
  \<^verbatim>\<open>OSError\<close> (which the handler swallows) or the process is gone.
\<close>

definition force_kill :: "nat \<Rightarrow> world \<Rightarrow> os_event list" where
  "force_kill pid w =
     (case getpgid_kill_r w of
        Inl _ \<Rightarrow> [Getpgid pid]
      | Inr g \<Rightarrow>
          (case killpg_kill_r w of
             Some _ \<Rightarrow> [Getpgid pid, Killpg g SIGKILL]
           | None \<Rightarrow>
               (case wait_final_r w of
                  Some _ \<Rightarrow> [Getpgid pid, Killpg g SIGKILL, Wait pid None]
                | None \<Rightarrow> [Getpgid pid, Killpg g SIGKILL, Wait pid None])))"

definition kill_group :: "nat \<Rightarrow> world \<Rightarrow> os_event list" where
  "kill_group pid w =
     (case getpgid_term_r w of
        Inl _ \<Rightarrow> [Getpgid pid]
      | Inr g \<Rightarrow>
          (case killpg_term_r w of
             Some _ \<Rightarrow> [Getpgid pid, Killpg g SIGTERM]
           | None \<Rightarrow>
               [Getpgid pid, Killpg g SIGTERM, Wait pid (Some 5)] @
               (case wait_grace_r w of
                  Exited \<Rightarrow> []
                | WaitError _ \<Rightarrow> []
                | WaitTimeoutExpired \<Rightarrow> force_kill pid w)))"

text \<open>
  \<^verbatim>\<open>_run_script\<close>: what leaves the call, the executor afterwards (the \<^verbatim>\<open>finally\<close> clause
  clears the handle on every path, a propagating \<^verbatim>\<open>KeyboardInterrupt\<close> included), and the
  calls made. The clause \<^verbatim>\<open>except Exception\<close> turns an exception of \<^verbatim>\<open>Popen\<close> or of
  \<^verbatim>\<open>communicate\<close> into the error result; a \<^verbatim>\<open>KeyboardInterrupt\<close> passes it.
\<close>

definition run_script ::
  "BashExecutor \<Rightarrow> string \<Rightarrow> int \<Rightarrow> world
     \<Rightarrow> ExecutionResult outcome \<times> BashExecutor \<times> os_event list"
where
  "run_script self script_path tmo w =
     (case popen_r w of
        Inl e \<Rightarrow>
          (Returned (error_result e w), self\<lparr>current_process := None\<rparr>,
           [Popen script_path (working_dir self)])
      | Inr pid \<Rightarrow>
          (let running = self\<lparr>current_process := Some pid\<rparr>;
               started = [Popen script_path (working_dir self), Communicate pid tmo]
           in case communicate_r w of
                Finished rc out err \<Rightarrow>
                  (Returned \<lparr> returncode = rc, stdout = out, stderr = err,
                              execution_time = time_end w - time_start w,
                              timeout_flag = False \<rparr>,
                   running\<lparr>current_process := None\<rparr>, started)
              | TimeoutExpired \<Rightarrow>
                  (Returned (timeout_result tmo w), running\<lparr>current_process := None\<rparr>,
                   started @ kill_group pid w)
              | CommError e \<Rightarrow>
                  (Returned (error_result e w), running\<lparr>current_process := None\<rparr>, started)
              | Interrupted \<Rightarrow>
                  (RaisedKeyboardInterrupt, running\<lparr>current_process := None\<rparr>, started)))"

section \<open>Execution controller\<close>

text \<open>\<^verbatim>\<open>timeout or self.timeout\<close>: \<^verbatim>\<open>None\<close> and \<^verbatim>\<open>0\<close> are both falsy.\<close>

definition effective_timeout :: "int option \<Rightarrow> BashExecutor \<Rightarrow> int" where
  "effective_timeout tmo self =
     (case tmo of
        None \<Rightarrow> timeout_cfg self
      | Some t \<Rightarrow> if t = 0 then timeout_cfg self else t)"

text \<open>
  The \<^verbatim>\<open>finally\<close> clause of \<^verbatim>\<open>execute\<close> and of \<^verbatim>\<open>validate_script_syntax\<close>:
  \<^verbatim>\<open>os.unlink\<close> is called, and its \<^verbatim>\<open>OSError\<close> is swallowed.
\<close>

definition cleanup_file :: "string \<Rightarrow> world \<Rightarrow> os_event list" where
  "cleanup_file temp_script_path w =
     (case unlink_r w of
        Some _ \<Rightarrow> [Unlink temp_script_path]
      | None \<Rightarrow> [Unlink temp_script_path])"

text \<open>
  \<^verbatim>\<open>execute\<close>: what the caller gets (a result, or the exception raised), the executor
  afterwards, and the calls made. What leaves \<^verbatim>\<open>_run_script\<close> leaves \<^verbatim>\<open>execute\<close>, after
  the \<^verbatim>\<open>finally\<close> clause.
\<close>

definition execute ::
  "BashExecutor \<Rightarrow> string \<Rightarrow> int option \<Rightarrow> world
     \<Rightarrow> ExecutionResult outcome \<times> BashExecutor \<times> os_event list"
where
  "execute self script_content tmo w =
     (if strip script_content = []
      then (Raised (ValueError ''Script content cannot be empty''), self, [])
      else
        (let t = effective_timeout tmo self;
             written = TempFile (prepare_script script_content)
         in case tempfile_r w of
              Inl e \<Rightarrow> (Raised e, self, [written])
            | Inr temp_script_path \<Rightarrow>
                (case chmod_r w of
                   Some m \<Rightarrow>
                     (Raised (OSError m), self,
                      [written, Chmod temp_script_path] @ cleanup_file temp_script_path w)
                 | None \<Rightarrow>
                     (case run_script self temp_script_path t w of
                        (result, self', evs) \<Rightarrow>
                          (result, self',
                           [written, Chmod temp_script_path] @ evs @
                           cleanup_file temp_script_path w)))))"

definition execute_command ::
  "BashExecutor \<Rightarrow> string \<Rightarrow> int option \<Rightarrow> world
     \<Rightarrow> ExecutionResult outcome \<times> BashExecutor \<times> os_event list"
where
  "execute_command self command tmo w = execute self command tmo w"

text \<open>
  \<^verbatim>\<open>interrupt_execution\<close>. A \<^verbatim>\<open>Popen\<close> object is always truthy, so the test is on
  \<^verbatim>\<open>None\<close>. An \<^verbatim>\<open>OSError\<close> of either call is swallowed.
\<close>

definition interrupt_execution ::
  "BashExecutor \<Rightarrow> world \<Rightarrow> unit outcome \<times> BashExecutor \<times> os_event list"
where
  "interrupt_execution self w =
     (case current_process self of
        None \<Rightarrow> (Returned (), self, [])
      | Some pid \<Rightarrow>
          (case getpgid_int_r w of
             Inl _ \<Rightarrow> (Returned (), self, [Getpgid pid])
           | Inr g \<Rightarrow>
               (case killpg_int_r w of
                  Some _ \<Rightarrow> (Returned (), self, [Getpgid pid, Killpg g SIGINT])
                | None \<Rightarrow> (Returned (), self, [Getpgid pid, Killpg g SIGINT]))))"



text \<open>The three components of what a call yields.\<close>

definition result_of :: "'a \<times> 'b \<times> 'c \<Rightarrow> 'a" where
  "result_of x = fst x"

definition state_of :: "'a \<times> 'b \<times> 'c \<Rightarrow> 'b" where
  "state_of x = fst (snd x)"

definition events_of :: "'a \<times> 'b \<times> 'c \<Rightarrow> 'c" where
  "events_of x = snd (snd x)"

text \<open>
  A caller that makes one \<^verbatim>\<open>execute\<close> call after another on the same executor, each with
  its own content, timeout argument and operating-system answers, going on after an
  exception as the command loop of \<^verbatim>\<open>cli.py\<close> does.
\<close>

fun execute_calls :: "BashExecutor \<Rightarrow> (string \<times> int option \<times> world) list \<Rightarrow> BashExecutor" where
  "execute_calls self [] = self"
| "execute_calls self ((content, tmo, w) # calls) =
     execute_calls (state_of (execute self content tmo w)) calls"

text \<open>Operating-system answers for the examples: every call succeeds, the script prints \<open>hi\<close>.\<close>

definition calm_world :: world where
  "calm_world =
     \<lparr> tempfile_r = Inr ''/tmp/tmpab12cd.sh'', chmod_r = None, popen_r = Inr 4242,
       communicate_r = Finished 0 (''hi'' @ [newline]) '''',
       getpgid_term_r = Inr 4242, killpg_term_r = None, wait_grace_r = Exited,
       getpgid_kill_r = Inr 4242, killpg_kill_r = None, wait_final_r = None,
       unlink_r = None, getpgid_int_r = Inr 4242, killpg_int_r = None,
       syntax_run_r = Completed 0 '''' '''', time_start = 100, time_end = 101 \<rparr>"

text \<open>Answers for a run that outlives its timeout and ignores \<^verbatim>\<open>SIGTERM\<close>.\<close>

definition stuck_world :: world where
  "stuck_world =
     calm_world\<lparr>communicate_r := TimeoutExpired, wait_grace_r := WaitTimeoutExpired\<rparr>"







section \<open>Dependency scan\<close>

text \<open>
  \<^verbatim>\<open>\w\<close> in a \<^verbatim>\<open>str\<close> pattern: a character that is alphanumeric (letters, digits and
  the numeric characters of the range) or the underscore.
\<close>

definition isalnum :: "char \<Rightarrow> bool" where
  "isalnum c =
     (let n = (of_char c :: nat)
      in (48 \<le> n \<and> n \<le> 57) \<or> (65 \<le> n \<and> n \<le> 90) \<or> (97 \<le> n \<and> n \<le> 122) \<or>
         n = 170 \<or> n = 178 \<or> n = 179 \<or> n = 181 \<or> n = 185 \<or> n = 186 \<or>
         (188 \<le> n \<and> n \<le> 190) \<or> (192 \<le> n \<and> n \<le> 214) \<or> (216 \<le> n \<and> n \<le> 246) \<or>
         248 \<le> n)"

definition is_word :: "char \<Rightarrow> bool" where
  "is_word c = (isalnum c \<or> c = CHR ''_'')"

text \<open>
  The patterns of the source use only literal characters, the two classes \<^verbatim>\<open>[\w-]\<close> and
  \<^verbatim>\<open>\s\<close> under a greedy \<^verbatim>\<open>+\<close>, the assertion \<^verbatim>\<open>\b\<close> and one capturing group. A pattern
  is the list of its items.
\<close>

datatype char_class = WordOrDash | Whitespace

fun in_class :: "char_class \<Rightarrow> char \<Rightarrow> bool" where
  "in_class WordOrDash c = (is_word c \<or> c = CHR ''-'')"
| "in_class Whitespace c = isspace c"

datatype re_item =
    Lit char
  | Plus char_class
  | WordBoundary
  | GroupStart
  | GroupEnd

text \<open>\<^verbatim>\<open>\b\<close> at position \<open>i\<close>: exactly one of the characters before and after is a word character.\<close>

definition at_boundary :: "string \<Rightarrow> nat \<Rightarrow> bool" where
  "at_boundary s i =
     ((0 < i \<and> is_word (s ! (i - 1))) \<noteq> (i < length s \<and> is_word (s ! i)))"

fun first_some :: "'a option list \<Rightarrow> 'a option" where
  "first_some [] = None"
| "first_some (None # xs) = first_some xs"
| "first_some (Some x # xs) = Some x"

text \<open>
  A backtracking match of the items from position \<open>i\<close> of \<open>s\<close>: the text of the group and
  the position after the match. \<open>gs\<close> is where the group started, \<open>cap\<close> its text once it is
  closed. A \<^verbatim>\<open>+\<close> takes the longest run first and gives characters back one at a time,
  down to one.
\<close>

fun match_items :: "re_item list \<Rightarrow> string \<Rightarrow> nat \<Rightarrow> nat \<Rightarrow> string \<Rightarrow> (string \<times> nat) option" where
  "match_items [] s i gs cap = Some (cap, i)"
| "match_items (Lit c # items) s i gs cap =
     (if i < length s \<and> s ! i = c then match_items items s (Suc i) gs cap else None)"
| "match_items (WordBoundary # items) s i gs cap =
     (if at_boundary s i then match_items items s i gs cap else None)"
| "match_items (GroupStart # items) s i gs cap = match_items items s i i cap"
| "match_items (GroupEnd # items) s i gs cap =
     match_items items s i gs (take (i - gs) (drop gs s))"
| "match_items (Plus cls # items) s i gs cap =
     (let n = length (takeWhile (in_class cls) (drop i s))
      in first_some (map (\<lambda>k. match_items items s (i + k) gs cap) (rev [1..<Suc n])))"

text \<open>
  \<^verbatim>\<open>re.findall\<close> with one group: the group's text of each match, scanning from the left,
  the next search starting where the last match ended. None of the five patterns
  matches the empty string, so a match always ends after the position it started at.
\<close>

function findall_from :: "re_item list \<Rightarrow> string \<Rightarrow> nat \<Rightarrow> string list" where
  "findall_from pat s i =
     (if length s < i then []
      else (case match_items pat s i 0 [] of
              None \<Rightarrow> findall_from pat s (Suc i)
            | Some (cap, j) \<Rightarrow> cap # findall_from pat s (if i < j then j else Suc i)))"
  by pat_completeness auto
termination
  by (relation "measure (\<lambda>(pat, s, i). Suc (length s) - i)") auto

declare findall_from.simps [simp del]

definition re_findall :: "re_item list \<Rightarrow> string \<Rightarrow> string list" where
  "re_findall pat s = findall_from pat s 0"

text \<open>
  The table \<^verbatim>\<open>command_patterns\<close>:
  \<^verbatim>\<open>\b([\w-]+)\s+\<close>, \<^verbatim>\<open>which\s+([\w-]+)\<close>, \<^verbatim>\<open>command\s+-v\s+([\w-]+)\<close>,
  \<^verbatim>\<open>\$\(([\w-]+)\<close> and a backtick followed by \<^verbatim>\<open>([\w-]+)\<close>.
\<close>

definition command_patterns :: "re_item list list" where
  "command_patterns =
     [ [WordBoundary, GroupStart, Plus WordOrDash, GroupEnd, Plus Whitespace],
       map Lit ''which'' @ [Plus Whitespace, GroupStart, Plus WordOrDash, GroupEnd],
       map Lit ''command'' @ [Plus Whitespace, Lit (CHR ''-''), Lit (CHR ''v''), Plus Whitespace,
                               GroupStart, Plus WordOrDash, GroupEnd],
       [Lit (CHR ''$''), Lit (CHR ''(''), GroupStart, Plus WordOrDash, GroupEnd],
       [Lit (CHR 0x60), GroupStart, Plus WordOrDash, GroupEnd] ]"

definition excluded_words :: "string list" where
  "excluded_words =
     [''if'', ''then'', ''else'', ''fi'', ''for'', ''while'', ''do'', ''done'',
      ''case'', ''esac'', ''function'', ''return'', ''exit'', ''echo'', ''printf'']"

text \<open>
  \<^verbatim>\<open>get_script_dependencies\<close>: the two loops add to the set each capture that is not
  excluded; \<^verbatim>\<open>sorted(list(dependencies))\<close> orders strings by code point.
\<close>

definition get_script_dependencies :: "string \<Rightarrow> string list" where
  "get_script_dependencies script_content =
     (let dependencies =
            fold (\<lambda>pattern deps.
                    fold (\<lambda>m deps. if m \<notin> set excluded_words then insert m deps else deps)
                         (re_findall pattern script_content) deps)
                 command_patterns {}
      in sorted_list_of_set dependencies)"

text \<open>The captures of all five patterns.\<close>

definition all_matches :: "string \<Rightarrow> string list" where
  "all_matches script_content =
     concat (map (\<lambda>pattern. re_findall pattern script_content) command_patterns)"

section \<open>Swallowed errors\<close>

lemma cleanup_file_eq [simp]: "cleanup_file p w = [Unlink p]"
  by (simp add: cleanup_file_def split: option.splits)


section \<open>Facts about strings\<close>

lemma dropWhile_all_self: "(\<forall>x \<in> set (dropWhile P s). P x) \<longleftrightarrow> (\<forall>x \<in> set s. P x)"
  by (induction s) auto

lemma strip_empty_iff: "strip s = [] \<longleftrightarrow> (\<forall>c \<in> set s. isspace c)"
  by (simp add: strip_def rstrip_def lstrip_def dropWhile_eq_Nil_conv dropWhile_all_self)

lemma strip_not_space_last: "strip s \<noteq> [] \<Longrightarrow> \<not> isspace (last (strip s))"
proof -
  assume ne: "strip s \<noteq> []"
  let ?d = "dropWhile isspace (rev (lstrip s))"
  from ne have d: "?d \<noteq> []" by (simp add: strip_def rstrip_def)
  then have "\<not> isspace (hd ?d)" by (rule hd_dropWhile)
  moreover have "last (strip s) = hd ?d"
    using d by (simp add: strip_def rstrip_def last_rev)
  ultimately show ?thesis by simp
qed

lemma rstrip_append: "b \<noteq> [] \<Longrightarrow> \<not> isspace (last b) \<Longrightarrow> rstrip (a @ b) = a @ b"
  by (cases b rule: rev_cases) (simp_all add: rstrip_def)

lemma split_nl_nonempty: "split_nl s \<noteq> []"
  by (induction s) (auto split: list.splits)

lemma join_split: "join_nl (split_nl s) = s"
proof (induction s)
  case Nil
  show ?case by simp
next
  case (Cons c cs)
  obtain l ls where sp: "split_nl cs = l # ls"
    using split_nl_nonempty [of cs] by (cases "split_nl cs") auto
  show ?case
  proof (cases "c = newline")
    case True
    with Cons sp show ?thesis by simp
  next
    case False
    with Cons sp show ?thesis by (cases ls) auto
  qed
qed

lemma join_tl_split: "join_nl (tl (split_nl s)) = after_first_line s"
proof (induction s)
  case Nil
  show ?case by (simp add: after_first_line_def)
next
  case (Cons c cs)
  obtain l ls where sp: "split_nl cs = l # ls"
    using split_nl_nonempty [of cs] by (cases "split_nl cs") auto
  show ?case
  proof (cases "c = newline")
    case True
    then show ?thesis using join_split [of cs] by (simp add: after_first_line_def)
  next
    case False
    with Cons sp show ?thesis by (simp add: after_first_line_def)
  qed
qed

lemma after_first_line_append:
  "newline \<notin> set a \<Longrightarrow> after_first_line (a @ newline # r) = r"
  by (induction a) (auto simp: after_first_line_def)

lemma join_nl_snoc2: "xs \<noteq> [] \<Longrightarrow> join_nl (xs @ ['''', s]) = join_nl xs @ [newline, newline] @ s"
  by (induction xs rule: join_nl.induct) auto

lemma strip_echo: "strip ''echo hi'' = ''echo hi''"
  by (simp add: strip_def lstrip_def rstrip_def isspace_def)



section \<open>The script wrapper\<close>

lemma header_text:
  "join_nl safety_header =
   ''#!/bin/bash\<newline>\<newline># Script execution safety measures\<newline>set -euo pipefail  # Exit on error, undefined vars, pipe failures\<newline>\<newline># Function to handle cleanup on exit\<newline>cleanup() {\<newline>    echo \"Script execution finished\"\<newline>}\<newline>trap cleanup EXIT\<newline>\<newline># Script content begins here''"
  by (simp add: safety_header_def newline_def)

lemma prepare_script_eq:
  "prepare_script content =
     join_nl safety_header @ [newline, newline] @
       (if startswith (strip content) ''#!/'' then after_first_line (strip content) else strip content)"
  by (simp add: prepare_script_def Let_def join_nl_snoc2 join_tl_split safety_header_def)

lemma prefix_shebang: "startswith s ''#!/'' \<Longrightarrow> startswith s ''#!''"
  by (auto simp: startswith_def prefix_def)

text \<open>
  C3: \<^verbatim>\<open>_prepare_script\<close> returns the twelve fixed header lines (interpreter
  directive first, then \<^verbatim>\<open>set -euo pipefail\<close> and the cleanup trap on \<^verbatim>\<open>EXIT\<close>), an
  empty line, and then the content with its leading and trailing whitespace removed:
  all of the trimmed content when it does not start with \<^verbatim>\<open>#!\<close>, and the trimmed content
  after its first line when it starts with \<^verbatim>\<open>#!/\<close>.
\<close>

theorem prepare_script_wraps:
  "(\<not> startswith (strip content) ''#!'' \<longrightarrow>
      prepare_script content = join_nl safety_header @ [newline, newline] @ strip content) \<and>
   (startswith (strip content) ''#!/'' \<longrightarrow>
      prepare_script content =
        join_nl safety_header @ [newline, newline] @ after_first_line (strip content)) \<and>
   join_nl safety_header =
     ''#!/bin/bash\<newline>\<newline># Script execution safety measures\<newline>set -euo pipefail  # Exit on error, undefined vars, pipe failures\<newline>\<newline># Function to handle cleanup on exit\<newline>cleanup() {\<newline>    echo \"Script execution finished\"\<newline>}\<newline>trap cleanup EXIT\<newline>\<newline># Script content begins here''"
  using prefix_shebang [of "strip content"] header_text
  by (auto simp: prepare_script_eq)

lemma strip_ex1: "strip ''  echo hi\<newline>'' = ''echo hi''"
  by (simp add: strip_def lstrip_def rstrip_def isspace_def)

lemma strip_ex2: "strip ''#!/bin/sh\<newline>echo hi\<newline>'' = ''#!/bin/sh\<newline>echo hi''"
  by (simp add: strip_def lstrip_def rstrip_def isspace_def)

theorem prepare_script_wraps_witness:
  "\<not> startswith (strip ''  echo hi\<newline>'') ''#!'' \<and>
   prepare_script ''  echo hi\<newline>'' = join_nl safety_header @ [newline, newline] @ ''echo hi'' \<and>
   startswith (strip ''#!/bin/sh\<newline>echo hi\<newline>'') ''#!/'' \<and>
   prepare_script ''#!/bin/sh\<newline>echo hi\<newline>'' =
     join_nl safety_header @ [newline, newline] @ ''echo hi''"
proof -
  have a: "\<not> startswith (strip ''  echo hi\<newline>'') ''#!''"
    by (simp add: strip_ex1 startswith_def)
  have b: "startswith (strip ''#!/bin/sh\<newline>echo hi\<newline>'') ''#!/''"
    by (simp add: strip_ex2 startswith_def)
  have c: "after_first_line ''#!/bin/sh\<newline>echo hi'' = ''echo hi''"
    by (simp add: after_first_line_def newline_def)
  from prepare_script_wraps [of "''  echo hi\<newline>''"]
       prepare_script_wraps [of "''#!/bin/sh\<newline>echo hi\<newline>''"] a b c
  show ?thesis by (simp add: strip_ex1 strip_ex2)
qed

lemma strip_ex3: "strip ''echo hi\<newline>'' = ''echo hi''"
  by (simp add: strip_def lstrip_def rstrip_def isspace_def)

text \<open>
  The content is not appended as it is: a script that ends with a line break loses it.
\<close>

theorem prepare_script_trims_counterexample:
  "prepare_script ''echo hi\<newline>'' = join_nl safety_header @ [newline, newline] @ ''echo hi'' \<and>
   \<not> suffix ''echo hi\<newline>'' (prepare_script ''echo hi\<newline>'')"
proof -
  have p: "prepare_script ''echo hi\<newline>'' = join_nl safety_header @ [newline, newline] @ ''echo hi''"
    by (simp add: prepare_script_eq strip_ex3 startswith_def)
  have "\<not> suffix ''echo hi\<newline>'' (join_nl safety_header @ [newline, newline] @ ''echo hi'')"
    by (simp add: suffix_to_prefix newline_def)
  with p show ?thesis by simp
qed

text \<open>
  A directive written \<^verbatim>\<open>#! /bin/sh\<close> starts with \<^verbatim>\<open>#!\<close> and not with \<^verbatim>\<open>#!/\<close>: it
  stays in the body.
\<close>

lemma prepare_keeps_spaced_directive:
  "prepare_script ''#! /bin/sh\<newline>echo hi'' =
     join_nl safety_header @ [newline, newline] @ ''#! /bin/sh\<newline>echo hi''"
  by (simp add: prepare_script_eq strip_def lstrip_def rstrip_def isspace_def startswith_def)

lemma header_split:
  "join_nl safety_header = ''#!/bin/bash'' @ newline # newline # join_nl (drop 2 safety_header)"
  by (simp add: safety_header_def)

lemma body_eq:
  assumes "\<not> startswith (strip c) ''#!''"
  shows "prepare_body_without_directive c =
           newline # join_nl (drop 2 safety_header) @ [newline, newline] @ strip c"
proof -
  have "\<not> startswith (strip c) ''#!/''"
    using assms prefix_shebang by blast
  then have "prepare_script c =
      ''#!/bin/bash'' @ newline # (newline # join_nl (drop 2 safety_header) @ [newline, newline] @ strip c)"
    by (simp add: prepare_script_eq header_split)
  moreover have "newline \<notin> set ''#!/bin/bash''"
    by (simp add: newline_def)
  ultimately show ?thesis
    unfolding prepare_body_without_directive_def
    using after_first_line_append by metis
qed

lemma tail_text:
  "\<exists>t. join_nl (drop 2 safety_header) = CHR ''#'' # CHR '' '' # t"
  by (simp add: safety_header_def)

lemma strip_body:
  assumes "strip c \<noteq> []"
  shows "strip (newline # join_nl (drop 2 safety_header) @ [newline, newline] @ strip c) =
           join_nl (drop 2 safety_header) @ [newline, newline] @ strip c"
proof -
  let ?T = "join_nl (drop 2 safety_header)"
  obtain t where t: "?T = CHR ''#'' # CHR '' '' # t"
    using tail_text by blast
  have l: "lstrip (newline # ?T @ [newline, newline] @ strip c) = ?T @ [newline, newline] @ strip c"
    unfolding t by (simp add: lstrip_def isspace_def newline_def)
  have "rstrip ((?T @ [newline, newline]) @ strip c) = (?T @ [newline, newline]) @ strip c"
    using assms strip_not_space_last by (intro rstrip_append) auto
  with l show ?thesis by (simp add: strip_def)
qed

text \<open>
  C4: for a content that is not empty once trimmed and does not start with
  \<^verbatim>\<open>#!\<close>, \<^verbatim>\<open>_prepare_script\<close> applied to the body it produced (first line removed)
  returns the whole header again, followed by the header lines of the first pass (all
  but the directive and the empty line after it) and the trimmed content. So only the
  directive stays single; the preamble and the trap are there twice, and the text
  differs from that of one pass.
\<close>

theorem prepare_injects_again:
  assumes "strip c \<noteq> []" "\<not> startswith (strip c) ''#!''"
  shows "prepare_script (prepare_body_without_directive c) =
           join_nl safety_header @ [newline, newline] @
           join_nl (drop 2 safety_header) @ [newline, newline] @ strip c \<and>
         prepare_script c = join_nl safety_header @ [newline, newline] @ strip c \<and>
         prepare_script (prepare_body_without_directive c) \<noteq> prepare_script c"
proof -
  let ?T = "join_nl (drop 2 safety_header)"
  obtain t where t: "?T = CHR ''#'' # CHR '' '' # t"
    using tail_text by blast
  have ns: "\<not> startswith (?T @ [newline, newline] @ strip c) ''#!/''"
    unfolding t by (simp add: startswith_def)
  have a: "prepare_script (prepare_body_without_directive c) =
           join_nl safety_header @ [newline, newline] @ ?T @ [newline, newline] @ strip c"
  proof -
    have "strip (prepare_body_without_directive c) = ?T @ [newline, newline] @ strip c"
      by (simp only: body_eq [OF assms(2)] strip_body [OF assms(1)])
    with ns show ?thesis
      by (simp only: prepare_script_eq if_False)
  qed
  have "\<not> startswith (strip c) ''#!/''"
    using assms(2) prefix_shebang by blast
  then have b: "prepare_script c = join_nl safety_header @ [newline, newline] @ strip c"
    by (simp add: prepare_script_eq)
  have "length (prepare_script (prepare_body_without_directive c)) \<noteq> length (prepare_script c)"
    unfolding a b by simp
  then have "prepare_script (prepare_body_without_directive c) \<noteq> prepare_script c"
    by auto
  with a b show ?thesis by simp
qed

theorem prepare_injects_again_witness:
  "strip ''echo hi'' \<noteq> [] \<and> \<not> startswith (strip ''echo hi'') ''#!'' \<and>
   prepare_script (prepare_body_without_directive ''echo hi'') =
     join_nl safety_header @ [newline, newline] @
     join_nl (drop 2 safety_header) @ [newline, newline] @ ''echo hi''"
proof -
  have a: "strip ''echo hi'' \<noteq> []" "\<not> startswith (strip ''echo hi'') ''#!''"
    by (simp_all add: strip_echo startswith_def)
  from prepare_injects_again [OF a] a show ?thesis
    by (simp add: strip_echo)
qed

text \<open>
  The second pass on \<^verbatim>\<open>echo hi\<close>: the trap line and the strict-mode line are there twice.
\<close>

theorem prepare_not_idempotent_counterexample:
  "count_list (split_nl (prepare_script (prepare_body_without_directive ''echo hi'')))
     ''trap cleanup EXIT'' = 2 \<and>
   count_list (split_nl (prepare_script (prepare_body_without_directive ''echo hi'')))
     ''set -euo pipefail  # Exit on error, undefined vars, pipe failures'' = 2 \<and>
   prepare_script (prepare_body_without_directive ''echo hi'') \<noteq> prepare_script ''echo hi''"
  by code_simp


section \<open>Input validation\<close>

text \<open>
  C2: when the content is empty or holds whitespace only, \<^verbatim>\<open>execute\<close> and
  \<^verbatim>\<open>execute_command\<close> raise the \<^verbatim>\<open>ValueError\<close> of input validation at once: no call to
  the operating system has been made (no temporary file, no subprocess), the executor
  is unchanged, and no result is returned.
\<close>

theorem execute_rejects_blank:
  assumes "\<forall>c \<in> set content. isspace c"
  shows "execute self content tmo w =
           (Raised (ValueError ''Script content cannot be empty''), self, []) \<and>
         execute_command self content tmo w =
           (Raised (ValueError ''Script content cannot be empty''), self, [])"
  using assms by (simp add: execute_def execute_command_def strip_empty_iff)

theorem execute_rejects_blank_witness:
  "strip ''   '' = [] \<and>
   execute (init None None ''/home/u'') ''   '' None calm_world =
     (Raised (ValueError ''Script content cannot be empty''), init None None ''/home/u'', []) \<and>
   execute_command (init None None ''/home/u'') ''   '' (Some 5) calm_world =
     (Raised (ValueError ''Script content cannot be empty''), init None None ''/home/u'', [])"
proof -
  have blank: "\<forall>c \<in> set ''   ''. isspace c"
    by (simp add: isspace_def)
  from execute_rejects_blank [OF blank, of "init None None ''/home/u''" None calm_world]
       execute_rejects_blank [OF blank, of "init None None ''/home/u''" "Some 5" calm_world]
       blank
  show ?thesis by (simp add: strip_empty_iff)
qed

section \<open>The timeout path\<close>












section \<open>Failures of a run\<close>





section \<open>The process handle\<close>

lemma run_script_clears: "current_process (state_of (run_script self p t w)) = None"
  by (simp add: run_script_def state_of_def Let_def split: sum.splits comm_outcome.splits)

lemma execute_state_cases:
  "state_of (execute self c tmo w) = self \<or>
   (\<exists>p. state_of (execute self c tmo w) =
          state_of (run_script self p (effective_timeout tmo self) w))"
  by (auto simp: execute_def state_of_def Let_def case_prod_beta
           split: sum.splits option.splits)

lemma execute_keeps_none:
  assumes "current_process self = None"
  shows "current_process (state_of (execute self c tmo w)) = None"
  using execute_state_cases [of self c tmo w] assms run_script_clears by metis

lemma execute_calls_none:
  "current_process self = None \<Longrightarrow> current_process (execute_calls self calls) = None"
  by (induction self calls rule: execute_calls.induct) (simp_all add: execute_keeps_none)

text \<open>
  C5: the runner leaves the handle at \<open>None\<close> on every path (completion, timeout,
  exception), whatever it was before; a call of \<^verbatim>\<open>execute\<close> that starts with no handle
  ends with no handle, whether it returns or raises; so after any sequence of
  \<^verbatim>\<open>execute\<close> calls on a new executor the handle is \<open>None\<close>.
\<close>

theorem handle_cleared:
  "current_process (state_of (run_script self p t w)) = None \<and>
   (current_process self = None \<longrightarrow>
      current_process (state_of (execute self c tmo w)) = None) \<and>
   current_process (execute_calls (init d wd cwd) calls) = None"
proof -
  have "current_process (init d wd cwd) = None"
    by (simp add: init_def)
  then show ?thesis
    by (simp add: run_script_clears execute_keeps_none execute_calls_none)
qed

theorem handle_cleared_witness:
  "current_process (init None None ''/home/u'') = None \<and>
   current_process
     (state_of (execute (init None None ''/home/u'') ''sleep 100'' (Some 1) stuck_world)) = None"
  using handle_cleared [of "init None None ''/home/u''" "''x''" 1 stuck_world
                           "''sleep 100''" "Some 1" None None "''/''" "[]"]
  by (simp add: init_def)

section \<open>Interruption\<close>

text \<open>
  C7: with no process recorded, \<^verbatim>\<open>interrupt_execution\<close> returns without raising, makes
  no call to the operating system and leaves the executor as it was. With a process
  recorded it returns without raising and with the executor unchanged whatever the
  operating system answers, an \<^verbatim>\<open>OSError\<close> for a process already gone included.
\<close>

theorem interrupt_idle_noop:
  "(current_process self = None \<longrightarrow>
      interrupt_execution self w = (Returned (), self, [])) \<and>
   result_of (interrupt_execution self w) = Returned () \<and>
   state_of (interrupt_execution self w) = self"
  by (simp add: interrupt_execution_def result_of_def state_of_def
           split: option.splits sum.splits)

theorem interrupt_idle_noop_witness:
  "current_process (init None None ''/home/u'') = None \<and>
   interrupt_execution (init None None ''/home/u'') calm_world =
     (Returned (), init None None ''/home/u'', [])"
  using interrupt_idle_noop [of "init None None ''/home/u''" calm_world]
  by (simp add: init_def)

section \<open>The syntax check\<close>







section \<open>The default timeout\<close>

lemma execute_events_start:
  assumes "strip content \<noteq> []" "tempfile_r w = Inr path" "chmod_r w = None"
    "popen_r w = Inr pid"
  shows "take 4 (events_of (execute self content tmo w)) =
           [TempFile (prepare_script content), Chmod path, Popen path (working_dir self),
            Communicate pid (effective_timeout tmo self)]"
  using assms
  by (simp add: execute_def run_script_def events_of_def Let_def split: comm_outcome.splits)

text \<open>
  C10: an executor built without a timeout has the default 30. When the timeout
  argument of \<^verbatim>\<open>execute\<close> is \<open>None\<close> or \<open>0\<close>, the timeout in force is the executor's
  own; so the timeout in force is \<open>0\<close> only if the executor's own is. The timeout in
  force is the one given to \<^verbatim>\<open>communicate\<close>.
\<close>

theorem default_timeout_substituted:
  "timeout_cfg (init None wd cwd) = 30 \<and>
   effective_timeout None self = timeout_cfg self \<and>
   effective_timeout (Some 0) self = timeout_cfg self \<and>
   (timeout_cfg self \<noteq> 0 \<longrightarrow> effective_timeout tmo self \<noteq> 0) \<and>
   (strip content \<noteq> [] \<and> tempfile_r w = Inr path \<and> chmod_r w = None \<and> popen_r w = Inr pid \<longrightarrow>
      take 4 (events_of (execute self content tmo w)) =
        [TempFile (prepare_script content), Chmod path, Popen path (working_dir self),
         Communicate pid (effective_timeout tmo self)])"
  using execute_events_start [of content w path pid self tmo]
  by (simp add: init_def effective_timeout_def split: option.splits)

theorem default_timeout_substituted_witness:
  "timeout_cfg (init None None ''/home/u'') \<noteq> 0 \<and>
   strip ''sleep 1'' \<noteq> [] \<and>
   tempfile_r calm_world = Inr ''/tmp/tmpab12cd.sh'' \<and> chmod_r calm_world = None \<and>
   popen_r calm_world = Inr 4242 \<and>
   effective_timeout (Some 0) (init None None ''/home/u'') = 30 \<and>
   take 4 (events_of (execute (init None None ''/home/u'') ''sleep 1'' (Some 0) calm_world)) =
     [TempFile (prepare_script ''sleep 1''), Chmod ''/tmp/tmpab12cd.sh'',
      Popen ''/tmp/tmpab12cd.sh'' ''/home/u'', Communicate 4242 30]"
proof -
  have content: "strip ''sleep 1'' \<noteq> []"
    by (simp add: strip_def lstrip_def rstrip_def isspace_def)
  have os: "tempfile_r calm_world = Inr ''/tmp/tmpab12cd.sh''" "chmod_r calm_world = None"
    "popen_r calm_world = Inr 4242"
    by (simp_all add: calm_world_def)
  have cfg: "timeout_cfg (init None None ''/home/u'') = 30"
    "working_dir (init None None ''/home/u'') = ''/home/u''"
    by (simp_all add: init_def)
  from default_timeout_substituted
         [of None "''/home/u''" "init None None ''/home/u''" "Some 0" "''sleep 1''" calm_world
             "''/tmp/tmpab12cd.sh''" 4242]
       content os cfg
  show ?thesis by simp
qed

section \<open>The dependency list\<close>

lemma fold_matches:
  "fold (\<lambda>m deps. if m \<notin> E then insert m deps else deps) ms A = A \<union> (set ms - E)"
  by (induction ms arbitrary: A) auto

lemma fold_patterns:
  "fold (\<lambda>pattern deps.
           fold (\<lambda>m deps. if m \<notin> E then insert m deps else deps) (f pattern) deps) ps A
     = A \<union> (set (concat (map f ps)) - E)"
  by (induction ps arbitrary: A) (auto simp: fold_matches)

lemma dependencies_set:
  "get_script_dependencies c = sorted_list_of_set (set (all_matches c) - set excluded_words)"
  by (simp add: get_script_dependencies_def all_matches_def fold_patterns)

text \<open>
  A match of one of the five patterns ends after the position it started at, so the scan
  of \<open>findall_from\<close> always resumes at the end of the match.
\<close>

lemma first_some_map: "first_some (map f ks) = Some x \<Longrightarrow> \<exists>k \<in> set ks. f k = Some x"
proof (induction ks)
  case Nil
  then show ?case by simp
next
  case (Cons k ks)
  then show ?case by (cases "f k") auto
qed

lemma match_items_mono: "match_items items s i gs cap = Some (c, j) \<Longrightarrow> i \<le> j"
proof (induction items s i gs cap rule: match_items.induct)
  case (6 cls items s i gs cap)
  let ?n = "length (takeWhile (in_class cls) (drop i s))"
  from "6.prems" obtain k where k: "k \<in> set (rev [1..<Suc ?n])"
      "match_items items s (i + k) gs cap = Some (c, j)"
    using first_some_map [of "\<lambda>k. match_items items s (i + k) gs cap" "rev [1..<Suc ?n]" "(c, j)"]
    by (auto simp: Let_def)
  from "6.IH" [OF refl k(1) k(2)] show ?case by simp
qed (auto split: if_splits)

lemma match_plus_progress:
  assumes "match_items (Plus cls # items) s i gs cap = Some (c, j)"
  shows "i < j"
proof -
  let ?n = "length (takeWhile (in_class cls) (drop i s))"
  from assms obtain k where k: "1 \<le> k" "match_items items s (i + k) gs cap = Some (c, j)"
    using first_some_map [of "\<lambda>k. match_items items s (i + k) gs cap" "rev [1..<Suc ?n]" "(c, j)"]
    by (auto simp: Let_def)
  from match_items_mono [OF k(2)] k(1) show ?thesis by simp
qed

lemma match_lit_progress:
  assumes "match_items (Lit x # items) s i gs cap = Some (c, j)"
  shows "i < j"
  using assms match_items_mono [of items s "Suc i" gs cap c j]
  by (auto split: if_splits)

lemma patterns_consume:
  assumes "pat \<in> set command_patterns" "match_items pat s i gs cap = Some (c, j)"
  shows "i < j"
proof -
  from assms(1) consider
      "pat = [WordBoundary, GroupStart, Plus WordOrDash, GroupEnd, Plus Whitespace]"
    | "\<exists>x items. pat = Lit x # items"
    by (auto simp: command_patterns_def)
  then show ?thesis
  proof cases
    case 1
    with assms(2) have "match_items [Plus WordOrDash, GroupEnd, Plus Whitespace] s i i cap = Some (c, j)"
      by (simp split: if_splits)
    then show ?thesis by (rule match_plus_progress)
  next
    case 2
    with assms(2) show ?thesis using match_lit_progress by blast
  qed
qed

text \<open>
  Every capture is a run of characters of the class \<^verbatim>\<open>[\w-]\<close>, not empty, that stands
  in the content.
\<close>

lemma cap_kept:
  "\<forall>it \<in> set post. it \<noteq> GroupStart \<and> it \<noteq> GroupEnd \<Longrightarrow>
   match_items post s i gs cap = Some (d, j) \<Longrightarrow> d = cap"
proof (induction post s i gs cap rule: match_items.induct)
  case (6 cls items s i gs cap)
  let ?n = "length (takeWhile (in_class cls) (drop i s))"
  from "6.prems"(2) obtain k where k: "k \<in> set (rev [1..<Suc ?n])"
      "match_items items s (i + k) gs cap = Some (d, j)"
    using first_some_map [of "\<lambda>k. match_items items s (i + k) gs cap" "rev [1..<Suc ?n]" "(d, j)"]
    by (auto simp: Let_def)
  from "6.prems"(1) have "\<forall>it \<in> set items. it \<noteq> GroupStart \<and> it \<noteq> GroupEnd"
    by simp
  from "6.IH" [OF refl k(1) this k(2)] show ?case .
qed (auto split: if_splits)

lemma skip_items:
  "\<forall>it \<in> set pre. it \<noteq> GroupStart \<and> it \<noteq> GroupEnd \<Longrightarrow>
   match_items (pre @ rest) s i gs cap = Some (d, j) \<Longrightarrow>
   \<exists>i'. match_items rest s i' gs cap = Some (d, j)"
proof (induction pre arbitrary: i)
  case Nil
  then show ?case by auto
next
  case (Cons it pre)
  from Cons.prems(1) have pre: "\<forall>it \<in> set pre. it \<noteq> GroupStart \<and> it \<noteq> GroupEnd"
    and it: "it \<noteq> GroupStart" "it \<noteq> GroupEnd"
    by simp_all
  show ?case
  proof (cases it)
    case (Lit x)
    with Cons.prems(2) have "match_items (pre @ rest) s (Suc i) gs cap = Some (d, j)"
      by (simp split: if_splits)
    with Cons.IH pre show ?thesis by blast
  next
    case (Plus cls)
    let ?n = "length (takeWhile (in_class cls) (drop i s))"
    from Cons.prems(2) Plus obtain k where
      "match_items (pre @ rest) s (i + k) gs cap = Some (d, j)"
      using first_some_map [of "\<lambda>k. match_items (pre @ rest) s (i + k) gs cap"
                               "rev [1..<Suc ?n]" "(d, j)"]
      by (auto simp: Let_def)
    with Cons.IH pre show ?thesis by blast
  next
    case WordBoundary
    with Cons.prems(2) have "match_items (pre @ rest) s i gs cap = Some (d, j)"
      by (simp split: if_splits)
    with Cons.IH pre show ?thesis by blast
  next
    case GroupStart
    with it show ?thesis by simp
  next
    case GroupEnd
    with it show ?thesis by simp
  qed
qed

lemma group_capture:
  assumes "\<forall>it \<in> set post. it \<noteq> GroupStart \<and> it \<noteq> GroupEnd"
    "match_items (GroupStart # Plus cls # GroupEnd # post) s i gs cap = Some (d, j)"
  shows "\<exists>k. 1 \<le> k \<and> k \<le> length (takeWhile (in_class cls) (drop i s)) \<and>
             d = take k (drop i s)"
proof -
  let ?n = "length (takeWhile (in_class cls) (drop i s))"
  from assms(2) obtain k where k: "k \<in> set (rev [1..<Suc ?n])"
      "match_items (GroupEnd # post) s (i + k) i cap = Some (d, j)"
    using first_some_map [of "\<lambda>k. match_items (GroupEnd # post) s (i + k) i cap"
                             "rev [1..<Suc ?n]" "(d, j)"]
    by (auto simp: Let_def)
  from k(2) have "match_items post s (i + k) i (take k (drop i s)) = Some (d, j)"
    by simp
  with assms(1) have "d = take k (drop i s)"
    by (rule cap_kept)
  with k(1) show ?thesis by auto
qed

lemma pattern_shape:
  assumes "pat \<in> set command_patterns"
  shows "\<exists>pre post. pat = pre @ GroupStart # Plus WordOrDash # GroupEnd # post \<and>
           (\<forall>it \<in> set pre. it \<noteq> GroupStart \<and> it \<noteq> GroupEnd) \<and>
           (\<forall>it \<in> set post. it \<noteq> GroupStart \<and> it \<noteq> GroupEnd)"
proof -
  from assms consider
      "pat = [WordBoundary] @ GroupStart # Plus WordOrDash # GroupEnd # [Plus Whitespace]"
    | "pat = (map Lit ''which'' @ [Plus Whitespace]) @ GroupStart # Plus WordOrDash # GroupEnd # []"
    | "pat = (map Lit ''command'' @ [Plus Whitespace, Lit (CHR ''-''), Lit (CHR ''v''), Plus Whitespace])
               @ GroupStart # Plus WordOrDash # GroupEnd # []"
    | "pat = [Lit (CHR ''$''), Lit (CHR ''('')] @ GroupStart # Plus WordOrDash # GroupEnd # []"
    | "pat = [Lit (CHR 0x60)] @ GroupStart # Plus WordOrDash # GroupEnd # []"
    by (auto simp: command_patterns_def)
  then show ?thesis
  proof cases
    case 1
    show ?thesis
      by (rule exI [of _ "[WordBoundary]"], rule exI [of _ "[Plus Whitespace]"]) (simp add: 1)
  next
    case 2
    show ?thesis
      by (rule exI [of _ "map Lit ''which'' @ [Plus Whitespace]"], rule exI [of _ "[]"])
         (simp add: 2)
  next
    case 3
    show ?thesis
      by (rule exI [of _ "map Lit ''command'' @
              [Plus Whitespace, Lit (CHR ''-''), Lit (CHR ''v''), Plus Whitespace]"],
          rule exI [of _ "[]"]) (simp add: 3)
  next
    case 4
    show ?thesis
      by (rule exI [of _ "[Lit (CHR ''$''), Lit (CHR ''('')]"], rule exI [of _ "[]"])
         (simp add: 4)
  next
    case 5
    show ?thesis
      by (rule exI [of _ "[Lit (CHR 0x60)]"], rule exI [of _ "[]"]) (simp add: 5)
  qed
qed

lemma findall_sound:
  "d \<in> set (findall_from pat s i) \<Longrightarrow> \<exists>i' j. match_items pat s i' 0 [] = Some (d, j)"
proof (induction pat s i rule: findall_from.induct)
  case (1 pat s i)
  show ?case
  proof (cases "length s < i")
    case True
    with "1.prems" show ?thesis by (simp add: findall_from.simps [of pat s i])
  next
    case False
    show ?thesis
    proof (cases "match_items pat s i 0 []")
      case None
      with False "1.prems" have "d \<in> set (findall_from pat s (Suc i))"
        by (simp add: findall_from.simps [of pat s i])
      with "1.IH"(1) False None show ?thesis by blast
    next
      case (Some r)
      obtain cap j where r: "r = (cap, j)" by (cases r)
      from False Some r "1.prems" have
        "d = cap \<or> d \<in> set (findall_from pat s (if i < j then j else Suc i))"
        by (simp add: findall_from.simps [of pat s i])
      then show ?thesis
      proof
        assume "d = cap"
        with Some r show ?thesis by blast
      next
        assume "d \<in> set (findall_from pat s (if i < j then j else Suc i))"
        with "1.IH"(2) [OF False Some r [symmetric]] show ?thesis by blast
      qed
    qed
  qed
qed

lemma capture_sound:
  assumes "pat \<in> set command_patterns" "d \<in> set (re_findall pat c)"
  shows "\<exists>p k. 1 \<le> k \<and> k \<le> length (takeWhile (in_class WordOrDash) (drop p c)) \<and>
               d = take k (drop p c)"
proof -
  from assms(2) obtain i j where m: "match_items pat c i 0 [] = Some (d, j)"
    using findall_sound [of d pat c 0] by (auto simp: re_findall_def)
  from pattern_shape [OF assms(1)] obtain pre post where
    pat: "pat = pre @ GroupStart # Plus WordOrDash # GroupEnd # post"
    and pre: "\<forall>it \<in> set pre. it \<noteq> GroupStart \<and> it \<noteq> GroupEnd"
    and post: "\<forall>it \<in> set post. it \<noteq> GroupStart \<and> it \<noteq> GroupEnd"
    by blast
  from skip_items [OF pre m [unfolded pat]] obtain p where
    "match_items (GroupStart # Plus WordOrDash # GroupEnd # post) c p 0 [] = Some (d, j)"
    by blast
  from group_capture [OF post this] show ?thesis by blast
qed

lemma take_run:
  assumes "1 \<le> k" "k \<le> length (takeWhile P xs)"
  shows "take k xs \<noteq> [] \<and> (\<forall>x \<in> set (take k xs). P x)"
proof -
  have "take k xs = take k (takeWhile P xs @ dropWhile P xs)" by simp
  also have "\<dots> = take k (takeWhile P xs)" using assms(2) by (simp del: takeWhile_dropWhile_id)
  finally have t: "take k xs = take k (takeWhile P xs)" .
  have "\<forall>x \<in> set (take k (takeWhile P xs)). P x"
    by (meson in_set_takeD set_takeWhileD)
  moreover have "take k (takeWhile P xs) \<noteq> []" using assms by auto
  ultimately show ?thesis using t by simp
qed

lemma dependency_shape:
  assumes "d \<in> set (all_matches c)"
  shows "d \<noteq> [] \<and> (\<forall>x \<in> set d. is_word x \<or> x = CHR ''-'') \<and> (\<exists>u v. c = u @ d @ v)"
proof -
  from assms obtain pat where "pat \<in> set command_patterns" "d \<in> set (re_findall pat c)"
    by (auto simp: all_matches_def)
  from capture_sound [OF this] obtain p k where k: "1 \<le> k"
      "k \<le> length (takeWhile (in_class WordOrDash) (drop p c))" "d = take k (drop p c)"
    by blast
  from take_run [OF k(1) k(2)] k(3) have a: "d \<noteq> []" "\<forall>x \<in> set d. is_word x \<or> x = CHR ''-''"
    by simp_all
  have "c = take p c @ d @ drop k (drop p c)"
    unfolding k(3) by (metis append_take_drop_id)
  with a show ?thesis by blast
qed

text \<open>
  A match at the head of the content: the items are followed one by one, the greedy
  \<^verbatim>\<open>+\<close> taking the whole run.
\<close>

lemma first_some_top:
  assumes "1 \<le> n" "f n = Some x"
  shows "first_some (map f (rev [1..<Suc n])) = Some x"
proof -
  from assms(1) have "rev [1..<Suc n] = n # rev [1..<n]"
    by simp
  with assms(2) show ?thesis by simp
qed

lemma takeWhile_run:
  assumes "\<forall>x \<in> set r. P x" "t = [] \<or> \<not> P (hd t)"
  shows "takeWhile P (r @ t) = r"
proof -
  from assms(2) have "takeWhile P t = []"
    by (cases t) auto
  with assms(1) show ?thesis
    by (simp add: takeWhile_append2)
qed

lemma drop_ConsD:
  assumes "drop i s = c # r"
  shows "i < length s \<and> s ! i = c \<and> drop (Suc i) s = r"
proof -
  from assms have i: "i < length s"
    by (metis drop_all list.distinct(1) not_le)
  then have "drop i s = s ! i # drop (Suc i) s"
    by (simp add: Cons_nth_drop_Suc)
  with assms i show ?thesis by simp
qed

lemma lits_step:
  "drop i s = p @ t \<Longrightarrow> match_items items s (i + length p) gs cap = Some x \<Longrightarrow>
   match_items (map Lit p @ items) s i gs cap = Some x"
proof (induction p arbitrary: i)
  case Nil
  then show ?case by simp
next
  case (Cons c p)
  from Cons.prems(1) have d: "i < length s" "s ! i = c" "drop (Suc i) s = p @ t"
    using drop_ConsD [of i s c "p @ t"] by simp_all
  from Cons.prems(2) have "match_items items s (Suc i + length p) gs cap = Some x"
    by simp
  from Cons.IH [OF d(3) this] d(1,2) show ?case by simp
qed

lemma plus_step:
  assumes "drop i s = r @ t" "r \<noteq> []" "\<forall>x \<in> set r. in_class cls x"
    "t = [] \<or> \<not> in_class cls (hd t)"
    "match_items items s (i + length r) gs cap = Some x"
  shows "match_items (Plus cls # items) s i gs cap = Some x"
proof -
  have n: "length (takeWhile (in_class cls) (drop i s)) = length r"
    using takeWhile_run [OF assms(3,4)] assms(1) by simp
  from assms(2) have "1 \<le> length r"
    by (cases r) simp_all
  from first_some_top [OF this, of "\<lambda>k. match_items items s (i + k) gs cap" x] assms(5) n
  show ?thesis by (simp add: Let_def)
qed

lemma group_step:
  assumes "drop i s = w @ t" "w \<noteq> []" "\<forall>x \<in> set w. in_class cls x"
    "t = [] \<or> \<not> in_class cls (hd t)"
    "match_items items s (i + length w) i w = Some x"
  shows "match_items (GroupStart # Plus cls # GroupEnd # items) s i gs cap = Some x"
proof -
  have "take (length w) (drop i s) = w"
    using assms(1) by simp
  with assms(5) have "match_items (GroupEnd # items) s (i + length w) i cap = Some x"
    by simp
  from plus_step [OF assms(1-4) this] show ?thesis by simp
qed

lemma findall_head:
  "match_items pat s 0 0 [] = Some (d, j) \<Longrightarrow> d \<in> set (re_findall pat s)"
  by (simp add: re_findall_def findall_from.simps [of pat s 0])

lemma word_not_space: "in_class WordOrDash x \<Longrightarrow> \<not> isspace x"
  by (auto simp: is_word_def isalnum_def isspace_def Let_def)

lemma hd_word_not_space:
  assumes "w \<noteq> []" "\<forall>x \<in> set w. in_class WordOrDash x"
  shows "w @ t = [] \<or> \<not> in_class Whitespace (hd (w @ t))"
  using assms word_not_space [of "hd w"] by (cases w) auto

lemma pats:
  "command_patterns ! 0 = [WordBoundary, GroupStart, Plus WordOrDash, GroupEnd, Plus Whitespace]"
  "command_patterns ! 1 =
     map Lit ''which'' @ [Plus Whitespace, GroupStart, Plus WordOrDash, GroupEnd]"
  "command_patterns ! 2 =
     map Lit ''command'' @ (Plus Whitespace # map Lit ''-v'' @
       [Plus Whitespace, GroupStart, Plus WordOrDash, GroupEnd])"
  "command_patterns ! 3 = map Lit ''$('' @ [GroupStart, Plus WordOrDash, GroupEnd]"
  "command_patterns ! 4 = map Lit ''`'' @ [GroupStart, Plus WordOrDash, GroupEnd]"
  by (simp_all add: command_patterns_def)

lemma tail_group:
  assumes "drop i s = w @ t" "w \<noteq> []" "\<forall>x \<in> set w. in_class WordOrDash x"
    "t = [] \<or> \<not> in_class WordOrDash (hd t)"
  shows "match_items [GroupStart, Plus WordOrDash, GroupEnd] s i gs cap = Some (w, i + length w)"
  by (rule group_step [OF assms]) simp

lemma lit_head:
  assumes "w \<noteq> []" "\<forall>x \<in> set w. in_class WordOrDash x"
    "t = [] \<or> \<not> in_class WordOrDash (hd t)"
  shows "w \<in> set (re_findall (map Lit p @ [GroupStart, Plus WordOrDash, GroupEnd]) (p @ w @ t))"
proof -
  let ?s = "p @ w @ t"
  have g: "match_items [GroupStart, Plus WordOrDash, GroupEnd] ?s (0 + length p) 0 []
             = Some (w, 0 + length p + length w)"
    by (rule tail_group [OF _ assms]) simp
  have "match_items (map Lit p @ [GroupStart, Plus WordOrDash, GroupEnd]) ?s 0 0 []
          = Some (w, 0 + length p + length w)"
    by (rule lits_step [where t = "w @ t", OF _ g]) simp
  then show ?thesis by (rule findall_head)
qed

lemma lit_space_head:
  assumes "w \<noteq> []" "\<forall>x \<in> set w. in_class WordOrDash x"
    "t = [] \<or> \<not> in_class WordOrDash (hd t)"
  shows "w \<in> set (re_findall
            (map Lit p @ [Plus Whitespace, GroupStart, Plus WordOrDash, GroupEnd])
            (p @ '' '' @ w @ t))"
proof -
  let ?s = "p @ '' '' @ w @ t"
  have g: "match_items [GroupStart, Plus WordOrDash, GroupEnd] ?s
             (0 + length p + length '' '') 0 []
             = Some (w, 0 + length p + length '' '' + length w)"
    by (rule tail_group [OF _ assms]) simp
  have sp: "\<forall>x \<in> set '' ''. in_class Whitespace x"
    by (simp add: isspace_def)
  have q: "match_items [Plus Whitespace, GroupStart, Plus WordOrDash, GroupEnd] ?s
             (0 + length p) 0 []
             = Some (w, 0 + length p + length '' '' + length w)"
    by (rule plus_step [where r = "'' ''" and t = "w @ t",
          OF _ _ sp hd_word_not_space [OF assms(1,2)] g]) simp_all
  have "match_items (map Lit p @ [Plus Whitespace, GroupStart, Plus WordOrDash, GroupEnd])
          ?s 0 0 [] = Some (w, 0 + length p + length '' '' + length w)"
    by (rule lits_step [where t = "'' '' @ w @ t", OF _ q]) simp
  then show ?thesis by (rule findall_head)
qed

lemma command_v_head:
  assumes "w \<noteq> []" "\<forall>x \<in> set w. in_class WordOrDash x"
    "t = [] \<or> \<not> in_class WordOrDash (hd t)"
  shows "w \<in> set (re_findall (command_patterns ! 2) (''command -v '' @ w @ t))"
proof -
  let ?s = "''command'' @ '' '' @ ''-v'' @ '' '' @ w @ t"
  let ?a = "0 + length ''command''"
  let ?b = "?a + length '' ''"
  let ?c = "?b + length ''-v''"
  let ?d = "?c + length '' ''"
  have sp: "\<forall>x \<in> set '' ''. in_class Whitespace x"
    by (simp add: isspace_def)
  have dash: "''-v'' @ '' '' @ w @ t = [] \<or> \<not> in_class Whitespace (hd (''-v'' @ '' '' @ w @ t))"
    by (simp add: isspace_def)
  have g: "match_items [GroupStart, Plus WordOrDash, GroupEnd] ?s ?d 0 []
             = Some (w, ?d + length w)"
    by (rule tail_group [OF _ assms]) simp
  have q2: "match_items [Plus Whitespace, GroupStart, Plus WordOrDash, GroupEnd] ?s ?c 0 []
              = Some (w, ?d + length w)"
    by (rule plus_step [where r = "'' ''" and t = "w @ t",
          OF _ _ sp hd_word_not_space [OF assms(1,2)] g]) simp_all
  have l2: "match_items (map Lit ''-v'' @
              [Plus Whitespace, GroupStart, Plus WordOrDash, GroupEnd]) ?s ?b 0 []
              = Some (w, ?d + length w)"
    by (rule lits_step [where t = "'' '' @ w @ t", OF _ q2]) simp
  have q1: "match_items (Plus Whitespace # map Lit ''-v'' @
              [Plus Whitespace, GroupStart, Plus WordOrDash, GroupEnd]) ?s ?a 0 []
              = Some (w, ?d + length w)"
    by (rule plus_step [where r = "'' ''" and t = "''-v'' @ '' '' @ w @ t",
          OF _ _ sp dash l2]) simp_all
  have "match_items (map Lit ''command'' @ (Plus Whitespace # map Lit ''-v'' @
              [Plus Whitespace, GroupStart, Plus WordOrDash, GroupEnd])) ?s 0 0 []
              = Some (w, ?d + length w)"
    by (rule lits_step [where t = "'' '' @ ''-v'' @ '' '' @ w @ t", OF _ q1]) simp
  then have "w \<in> set (re_findall (command_patterns ! 2) ?s)"
    unfolding pats by (rule findall_head)
  then show ?thesis by simp
qed

lemma bare_word_head:
  assumes "w \<noteq> []" "\<forall>x \<in> set w. in_class WordOrDash x" "is_word (hd w)"
  shows "w \<in> set (re_findall (command_patterns ! 0) (w @ '' '' @ t))"
proof -
  let ?s = "w @ '' '' @ t"
  let ?r = "CHR '' '' # takeWhile isspace t"
  have r: "\<forall>x \<in> set ?r. in_class Whitespace x"
    by (auto simp: isspace_def dest: set_takeWhileD)
  have tl: "dropWhile isspace t = [] \<or> \<not> in_class Whitespace (hd (dropWhile isspace t))"
    using hd_dropWhile [of isspace t] by auto
  have e: "match_items [] ?s (0 + length w + length ?r) 0 w = Some (w, 0 + length w + length ?r)"
    by simp
  have q: "match_items [Plus Whitespace] ?s (0 + length w) 0 w
             = Some (w, 0 + length w + length ?r)"
    by (rule plus_step [where r = ?r and t = "dropWhile isspace t", OF _ _ r tl e]) simp_all
  have ns: "'' '' @ t = [] \<or> \<not> in_class WordOrDash (hd ('' '' @ t))"
    by (simp add: is_word_def isalnum_def)
  have g: "match_items [GroupStart, Plus WordOrDash, GroupEnd, Plus Whitespace] ?s 0 0 []
             = Some (w, 0 + length w + length ?r)"
    by (rule group_step [where t = "'' '' @ t", OF _ assms(1,2) ns q]) simp
  have "at_boundary ?s 0"
    using assms(1,3) by (cases w) (simp_all add: at_boundary_def)
  with g have "match_items (command_patterns ! 0) ?s 0 0 []
                 = Some (w, 0 + length w + length ?r)"
    unfolding pats by (simp del: match_items.simps add: match_items.simps(3))
  then show ?thesis by (rule findall_head)
qed

lemma heads:
  assumes "w \<noteq> []" "\<forall>x \<in> set w. in_class WordOrDash x"
    "t = [] \<or> \<not> in_class WordOrDash (hd t)"
  shows "w \<in> set (re_findall (command_patterns ! 1) (''which '' @ w @ t))"
    and "w \<in> set (re_findall (command_patterns ! 2) (''command -v '' @ w @ t))"
    and "w \<in> set (re_findall (command_patterns ! 3) (''$('' @ w @ t))"
    and "w \<in> set (re_findall (command_patterns ! 4) (''`'' @ w @ t))"
proof -
  show "w \<in> set (re_findall (command_patterns ! 1) (''which '' @ w @ t))"
    unfolding pats using lit_space_head [OF assms, of "''which''"] by simp
  show "w \<in> set (re_findall (command_patterns ! 2) (''command -v '' @ w @ t))"
    by (rule command_v_head [OF assms])
  show "w \<in> set (re_findall (command_patterns ! 3) (''$('' @ w @ t))"
    unfolding pats using lit_head [OF assms, of "''$(''"] by simp
  show "w \<in> set (re_findall (command_patterns ! 4) (''`'' @ w @ t))"
    unfolding pats using lit_head [OF assms, of "''`''"] by simp
qed

text \<open>The scan on sample scripts.\<close>

lemma pin_bare: "get_script_dependencies ''tar xf a.tgz'' = [''tar'', ''xf'']"
  by code_simp
lemma pin_which: "get_script_dependencies ''which jq'' = [''jq'', ''which'']"
  by code_simp
lemma pin_command: "get_script_dependencies ''command -v git'' = [''command'', ''git'', ''v'']"
  by code_simp
lemma pin_dollar: "get_script_dependencies ''x=$(date)'' = [''date'']"
  by code_simp
lemma pin_backtick: "get_script_dependencies ''`uname`'' = [''uname'']"
  by code_simp
lemma pin_excluded:
  "get_script_dependencies
     ''if then else fi for while do done case esac function return exit echo printf '' = []"
  by code_simp
lemma pin_all:
  "map (\<lambda>pattern. re_findall pattern
          ''if which jq; then echo $(date) `uname`; command -v git; tar xf a.tgz; fi'')
       command_patterns =
     [[''if'', ''which'', ''then'', ''echo'', ''command'', ''v'', ''tar'', ''xf''],
      [''jq''], [''git''], [''date''], [''uname'']]"
  by code_simp
lemma pin_deps:
  "get_script_dependencies
     ''if which jq; then echo $(date) `uname`; command -v git; tar xf a.tgz; fi'' =
   [''command'', ''date'', ''git'', ''jq'', ''tar'', ''uname'', ''v'', ''which'', ''xf'']"
  by code_simp

lemma nth_patterns: "k < 5 \<Longrightarrow> command_patterns ! k \<in> set command_patterns"
proof -
  have "length command_patterns = 5"
    by (simp add: command_patterns_def)
  then show "k < 5 \<Longrightarrow> command_patterns ! k \<in> set command_patterns"
    by (metis nth_mem)
qed

lemma deps_member:
  assumes "k < 5" "w \<in> set (re_findall (command_patterns ! k) c)" "w \<notin> set excluded_words"
  shows "w \<in> set (get_script_dependencies c)"
proof -
  from assms(1,2) have "w \<in> set (all_matches c)"
    using nth_patterns [of k] by (auto simp: all_matches_def)
  with assms(3) show ?thesis
    by (simp add: dependencies_set)
qed

text \<open>
  C9: the list returned by \<^verbatim>\<open>get_script_dependencies\<close> has no duplicates, is in
  strictly ascending order, and holds exactly the captures of the five patterns in the
  content that are not one of the fifteen excluded words. Each name in it is a run of
  word characters and dashes, not empty, that stands in the content. What the table
  extracts: a name \<open>w\<close> of such characters that is not excluded is in the list for the
  contents \<^verbatim>\<open>which w\<close>, \<^verbatim>\<open>command -v w\<close>, \<^verbatim>\<open>$(w\<close> and a backtick followed by \<open>w\<close> (when
  what follows \<open>w\<close> is not a word character or a dash), and for \<open>w\<close> followed by a space
  when \<open>w\<close> starts with a word character. On sample scripts, one for each kind and one
  with all of them, the list is the one given.
\<close>

theorem dependencies_sorted_distinct:
  "distinct (get_script_dependencies c) \<and>
   sorted (get_script_dependencies c) \<and>
   sorted_wrt (<) (get_script_dependencies c) \<and>
   set (get_script_dependencies c) = set (all_matches c) - set excluded_words \<and>
   set (get_script_dependencies c) \<inter>
     {''if'', ''then'', ''else'', ''fi'', ''for'', ''while'', ''do'', ''done'',
      ''case'', ''esac'', ''function'', ''return'', ''exit'', ''echo'', ''printf''} = {} \<and>
   (\<forall>d \<in> set (get_script_dependencies c).
      d \<noteq> [] \<and> (\<forall>x \<in> set d. is_word x \<or> x = CHR ''-'') \<and> (\<exists>u v. c = u @ d @ v)) \<and>
   (w \<noteq> [] \<and> (\<forall>x \<in> set w. is_word x \<or> x = CHR ''-'') \<and> w \<notin> set excluded_words \<and>
    (t = [] \<or> \<not> (is_word (hd t) \<or> hd t = CHR ''-'')) \<longrightarrow>
      w \<in> set (get_script_dependencies (''which '' @ w @ t)) \<and>
      w \<in> set (get_script_dependencies (''command -v '' @ w @ t)) \<and>
      w \<in> set (get_script_dependencies (''$('' @ w @ t)) \<and>
      w \<in> set (get_script_dependencies (''`'' @ w @ t))) \<and>
   (w \<noteq> [] \<and> (\<forall>x \<in> set w. is_word x \<or> x = CHR ''-'') \<and> w \<notin> set excluded_words \<and>
    is_word (hd w) \<longrightarrow>
      w \<in> set (get_script_dependencies (w @ '' '' @ r))) \<and>
   get_script_dependencies ''tar xf a.tgz'' = [''tar'', ''xf''] \<and>
   get_script_dependencies ''which jq'' = [''jq'', ''which''] \<and>
   get_script_dependencies ''command -v git'' = [''command'', ''git'', ''v''] \<and>
   get_script_dependencies ''x=$(date)'' = [''date''] \<and>
   get_script_dependencies ''`uname`'' = [''uname''] \<and>
   get_script_dependencies
     ''if then else fi for while do done case esac function return exit echo printf '' = [] \<and>
   map (\<lambda>pattern. re_findall pattern
          ''if which jq; then echo $(date) `uname`; command -v git; tar xf a.tgz; fi'')
       command_patterns =
     [[''if'', ''which'', ''then'', ''echo'', ''command'', ''v'', ''tar'', ''xf''],
      [''jq''], [''git''], [''date''], [''uname'']] \<and>
   get_script_dependencies
     ''if which jq; then echo $(date) `uname`; command -v git; tar xf a.tgz; fi'' =
   [''command'', ''date'', ''git'', ''jq'', ''tar'', ''uname'', ''v'', ''which'', ''xf'']"
proof -
  have fin: "finite (set (all_matches c) - set excluded_words)"
    by simp
  have s: "set (get_script_dependencies c) = set (all_matches c) - set excluded_words"
    unfolding dependencies_set using fin by simp
  have e: "set excluded_words =
     {''if'', ''then'', ''else'', ''fi'', ''for'', ''while'', ''do'', ''done'',
      ''case'', ''esac'', ''function'', ''return'', ''exit'', ''echo'', ''printf''}"
    by (simp add: excluded_words_def)
  have d: "distinct (get_script_dependencies c)" "sorted (get_script_dependencies c)"
    "sorted_wrt (<) (get_script_dependencies c)"
    unfolding dependencies_set by simp_all
  from s e have x: "set (get_script_dependencies c) \<inter>
     {''if'', ''then'', ''else'', ''fi'', ''for'', ''while'', ''do'', ''done'',
      ''case'', ''esac'', ''function'', ''return'', ''exit'', ''echo'', ''printf''} = {}"
    by blast
  have shape: "\<forall>d \<in> set (get_script_dependencies c).
      d \<noteq> [] \<and> (\<forall>x \<in> set d. is_word x \<or> x = CHR ''-'') \<and> (\<exists>u v. c = u @ d @ v)"
    using s dependency_shape [of _ c] by blast
  have lits: "w \<in> set (get_script_dependencies (''which '' @ w @ t)) \<and>
      w \<in> set (get_script_dependencies (''command -v '' @ w @ t)) \<and>
      w \<in> set (get_script_dependencies (''$('' @ w @ t)) \<and>
      w \<in> set (get_script_dependencies (''`'' @ w @ t))"
    if w: "w \<noteq> []" "\<forall>x \<in> set w. is_word x \<or> x = CHR ''-''" "w \<notin> set excluded_words"
      and t: "t = [] \<or> \<not> (is_word (hd t) \<or> hd t = CHR ''-'')"
  proof -
    from w(2) have c: "\<forall>x \<in> set w. in_class WordOrDash x" by simp
    from t have n: "t = [] \<or> \<not> in_class WordOrDash (hd t)" by simp
    from heads [OF w(1) c n] w(3) show ?thesis
      by (auto intro: deps_member [where k = 1] deps_member [where k = 2]
            deps_member [where k = 3] deps_member [where k = 4])
  qed
  have bare: "w \<in> set (get_script_dependencies (w @ '' '' @ r))"
    if w: "w \<noteq> []" "\<forall>x \<in> set w. is_word x \<or> x = CHR ''-''" "w \<notin> set excluded_words"
      "is_word (hd w)"
  proof -
    from w(2) have c: "\<forall>x \<in> set w. in_class WordOrDash x" by simp
    from bare_word_head [OF w(1) c w(4)] w(3) show ?thesis
      by (auto intro: deps_member [where k = 0])
  qed
  from d s x shape lits bare pin_bare pin_which pin_command pin_dollar pin_backtick
    pin_excluded pin_all pin_deps
  show ?thesis by blast
qed

theorem dependencies_sorted_distinct_witness:
  "''jq'' \<noteq> [] \<and> ''jq'' \<notin> set excluded_words \<and>
   ''jq'' \<in> set (get_script_dependencies ''which jq'') \<and>
   ''jq'' \<in> set (get_script_dependencies ''command -v jq'') \<and>
   ''jq'' \<in> set (get_script_dependencies ''$(jq'') \<and>
   ''jq'' \<in> set (get_script_dependencies ''`jq'') \<and>
   ''jq'' \<in> set (get_script_dependencies ''jq .name'') \<and>
   ''uname'' \<in> set (get_script_dependencies
      ''if which jq; then echo $(date) `uname`; command -v git; tar xf a.tgz; fi'') \<and>
   (\<exists>u v. ''if which jq; then echo $(date) `uname`; command -v git; tar xf a.tgz; fi'' =
            u @ ''uname'' @ v)"
proof -
  let ?S = "''if which jq; then echo $(date) `uname`; command -v git; tar xf a.tgz; fi''"
  have w: "''jq'' \<noteq> []" "\<forall>x \<in> set ''jq''. is_word x \<or> x = CHR ''-''"
    "''jq'' \<notin> set excluded_words" "is_word (hd ''jq'')"
    by (simp_all add: is_word_def isalnum_def excluded_words_def)
  note inst = dependencies_sorted_distinct [where c = ?S and w = "''jq''" and t = "[]"
                and r = "''.name''"]
  from inst have u: "''uname'' \<in> set (get_script_dependencies ?S)"
    by simp
  with inst have "\<exists>u v. ?S = u @ ''uname'' @ v"
    by blast
  with inst w u show ?thesis
    by simp
qed

end
